theory Spec2Isabelle
  imports Main "HOL-Library.Sublist"
begin

section \<open>Data model (types.ts)\<close>

text \<open>
  \<^verbatim>\<open>StepDefinition\<close>, \<^verbatim>\<open>FindingData\<close> and \<^verbatim>\<open>FindingsMap\<close> of \<^verbatim>\<open>types.ts\<close>.
  The \<^verbatim>\<open>icon\<close> field holds a JSX element that no handler, effect or report line reads;
  it is left out. The field \<^verbatim>\<open>id\<close> is named \<open>step_id\<close>, since \<open>id\<close> is the identity
  function of HOL. JavaScript numbers that the program only uses as array indices are
  \<open>nat\<close>; numbers it subtracts from and compares with zero are \<open>int\<close>.

  A JavaScript string is modelled as a \<open>string\<close>: each \<open>char\<close> stands for one code unit
  below 256.
\<close>

record StepDefinition =
  step_id :: nat
  title :: string
  duration :: int
  description :: string
  checklist :: "string list"

record FindingData =
  checked :: "string list"
  "notes" :: string

type_synonym FindingsMap = "nat \<rightharpoonup> FindingData"

section \<open>The step catalogue (App.tsx, \<^verbatim>\<open>steps\<close>)\<close>

definition steps :: "StepDefinition list" where
  "steps =
    [ \<lparr> step_id = 1,
        title = ''Control Clauses'',
        duration = 60,
        description = ''Identify the 3 clauses that decide who wins. If these are vague or one-sided, nothing else matters.'',
        checklist =
          [ ''Term: Is the duration clear?'',
            ''Termination: Can we get out? At what cost?'',
            ''Liability: Is it capped? Are we exposed?'' ] \<rparr>,
      \<lparr> step_id = 2,
        title = ''Money, Obligations & Timelines'',
        duration = 120,
        description = ''90% of disputes come from these 5 things. Check payment and performance strictly.'',
        checklist =
          [ ''Payment Amount: Is the math exact?'',
            ''Payment Schedule: When is it due?'',
            ''Penalties: Are there late fees or interest?'',
            ''Performance Obligations: What MUST be done?'',
            ''Deadlines: Are dates hard or soft?'' ] \<rparr>,
      \<lparr> step_id = 3,
        title = ''Definitions'',
        duration = 60,
        description = ''Undefined terms = loopholes. Over-defined terms = traps.'',
        checklist =
          [ ''Check for 'Shall' vs 'May' misuse'',
            ''Scan for ambiguous words (e.g., 'reasonable')'',
            ''Find hidden obligations buried in definitions'' ] \<rparr>,
      \<lparr> step_id = 4,
        title = ''Indemnity + Confidentiality'',
        duration = 60,
        description = ''The most weaponized clauses. If unlimited, the client is at high risk.'',
        checklist =
          [ ''Indemnity: Who indemnifies whom?'',
            ''Indemnity Scope: For what exactly?'',
            ''Confidentiality: Is the scope reasonable?'' ] \<rparr>,
      \<lparr> step_id = 5,
        title = ''Dispute Resolution'',
        duration = 60,
        description = ''Avoid the wrong jurisdiction, wrong seat, or expensive arbitration.'',
        checklist =
          [ ''Jurisdiction: Is it favorable/neutral?'',
            ''Seat: Is the physical location practical?'',
            ''Arbitration: Is it mandatory? Who pays?'',
            ''Delays: Are timeline mechanisms clear?'' ] \<rparr>,
      \<lparr> step_id = 6,
        title = ''Final Sanity Check'',
        duration = 60,
        description = ''Quick scan for structural integrity and missing pieces.'',
        checklist =
          [ ''Conflicting clauses'',
            ''Missing annexures/exhibits'',
            ''Internal inconsistencies'',
            ''Signature blocks correct'' ] \<rparr> ]"

text \<open>
  \<^verbatim>\<open>steps[i]\<close>: outside the array JavaScript yields \<^verbatim>\<open>undefined\<close>, and reading a field of
  it throws; \<open>None\<close> stands for that.
\<close>

definition stepAt :: "nat \<Rightarrow> StepDefinition option" where
  "stepAt i = (if i < length steps then Some (steps ! i) else None)"

section \<open>String helpers of the JavaScript runtime\<close>

text \<open>
  \<^verbatim>\<open>String.prototype.trim\<close> strips white space and line terminators at both ends. Among
  the code units below 256 these are TAB, LF, VT, FF, CR, SPACE and NO-BREAK SPACE.
\<close>

definition isWhiteSpace :: "char \<Rightarrow> bool" where
  "isWhiteSpace c = (of_char c \<in> {9, 10, 11, 12, 13, 32, 160 :: nat})"

definition trim :: "string \<Rightarrow> string" where
  "trim s = rev (dropWhile isWhiteSpace (rev (dropWhile isWhiteSpace s)))"

text \<open>
  \<^verbatim>\<open>toUpperCase\<close>, on the ASCII letters; the program applies it to the six authored
  titles only, which are ASCII.
\<close>

definition upperChar :: "char \<Rightarrow> char" where
  "upperChar c =
     (let n = (of_char c :: nat) in if 97 \<le> n \<and> n \<le> 122 then char_of (n - 32) else c)"

definition toUpperCase :: "string \<Rightarrow> string" where
  "toUpperCase s = map upperChar s"

text \<open>The decimal rendering of a number in a template literal, for naturals.\<close>

fun showNat :: "nat \<Rightarrow> string" where
  "showNat n =
     (if n < 10 then [char_of (48 + n)]
      else showNat (n div 10) @ [char_of (48 + n mod 10)])"

section \<open>Report generation (App.tsx, \<^verbatim>\<open>generateReport\<close>)\<close>

text \<open>
  \<^verbatim>\<open>hasIssues = (stepData?.checked?.length ?? 0) > 0
              || (stepData?.notes && stepData.notes.trim() !== "")\<close>
\<close>

definition hasIssues :: "FindingData option \<Rightarrow> bool" where
  "hasIssues stepData =
     (case stepData of
        None \<Rightarrow> False
      | Some d \<Rightarrow>
          (if 0 < length (checked d) then True
           else if notes d = [] then False
           else trim (notes d) \<noteq> []))"

text \<open>The line that \<^verbatim>\<open>stepData.checked.forEach\<close> appends for one item.\<close>

definition flagLine :: "string \<Rightarrow> string" where
  "flagLine item = '' - [x] '' @ item @ ''\<newline>''"

definition separator :: string where
  "separator = ''\<newline>-----------------------------------\<newline>\<newline>''"

definition blockHeader :: "nat \<Rightarrow> StepDefinition \<Rightarrow> string" where
  "blockHeader index step =
     ''['' @ showNat (index + 1) @ ''] '' @ toUpperCase (title step) @ ''\<newline>''"

text \<open>
  The text that one iteration of \<^verbatim>\<open>steps.forEach((step, index) => ...)\<close> appends to
  \<^verbatim>\<open>report\<close>.
\<close>

definition stepBlock :: "nat \<Rightarrow> StepDefinition \<Rightarrow> FindingData option \<Rightarrow> string" where
  "stepBlock index step stepData =
     blockHeader index step @
     (if hasIssues stepData then
        (case stepData of
           None \<Rightarrow> []
         | Some d \<Rightarrow>
             (if 0 < length (checked d)
              then ''Flags Identified:\<newline>'' @ foldl (\<lambda>report item. report @ flagLine item) [] (checked d)
              else []) @
             (if notes d \<noteq> [] then ''Notes: '' @ notes d @ ''\<newline>'' else []))
      else ''Status: No specific issues flagged.\<newline>'') @
     separator"

text \<open>
  The three opening lines. \<open>today\<close> is the value of
  \<^verbatim>\<open>new Date().toLocaleDateString()\<close>, which the program reads from its environment.
\<close>

definition reportHeader :: "string \<Rightarrow> string \<Rightarrow> string" where
  "reportHeader today contractName =
     ''7-MINUTE CONTRACT REVIEW REPORT\<newline>'' @
     ''Contract: '' @ (if contractName \<noteq> [] then contractName else ''Untitled'') @ ''\<newline>'' @
     ''Date: '' @ today @ ''\<newline>\<newline>''"

definition generateReport :: "string \<Rightarrow> string \<Rightarrow> FindingsMap \<Rightarrow> string" where
  "generateReport today contractName findings =
     foldl (\<lambda>report (index, step). report @ stepBlock index step (findings index))
       (reportHeader today contractName)
       (zip [0 ..< length steps] steps)"

section \<open>The sidebar indicator (App.tsx, desktop step list)\<close>

text \<open>
  \<^verbatim>\<open>findings[idx]?.checked?.length || findings[idx]?.notes ? <dot/> : null\<close>:
  a number is truthy when it is not zero, a string when it is not empty.
\<close>

definition sidebarHasFindings :: "FindingsMap \<Rightarrow> nat \<Rightarrow> bool" where
  "sidebarHasFindings findings idx =
     (case findings idx of
        None \<Rightarrow> False
      | Some d \<Rightarrow> (if length (checked d) = 0 then (if notes d = [] then False else True) else True))"

section \<open>Session state (App.tsx, the \<^verbatim>\<open>useState\<close> cells)\<close>

text \<open>
  The seven state cells of the component, and \<open>interval\<close>: whether the
  \<^verbatim>\<open>setInterval\<close> handle armed by the last run of the timer effect is still live
  (the local variable \<^verbatim>\<open>interval\<close> that the effect's cleanup clears).
\<close>

record session =
  activeStep :: nat
  isTimerRunning :: bool
  timeLeft :: int
  findings :: FindingsMap
  reviewComplete :: bool
  contractName :: string
  mobileMenuOpen :: bool
  interval :: bool

definition initial :: session where
  "initial =
     \<lparr> activeStep = 0, isTimerRunning = False, timeLeft = 60, findings = Map.empty,
       reviewComplete = False, contractName = [], mobileMenuOpen = False, interval = False \<rparr>"

section \<open>Handlers\<close>

definition toggleTimer :: "session \<Rightarrow> session" where
  "toggleTimer s = s\<lparr>isTimerRunning := \<not> isTimerRunning s\<rparr>"

definition resetTimer :: "session \<Rightarrow> session option" where
  "resetTimer s =
     (case stepAt (activeStep s) of
        None \<Rightarrow> None
      | Some st \<Rightarrow> Some (s\<lparr>isTimerRunning := False, timeLeft := duration st\<rparr>))"

definition handleNext :: "session \<Rightarrow> session" where
  "handleNext s =
     (if int (activeStep s) < int (length steps) - 1
      then s\<lparr>activeStep := activeStep s + 1\<rparr>
      else s\<lparr>reviewComplete := True\<rparr>)"

definition handleBack :: "session \<Rightarrow> session" where
  "handleBack s = (if 0 < activeStep s then s\<lparr>activeStep := activeStep s - 1\<rparr> else s)"

text \<open>
  \<^verbatim>\<open>prev[activeStep]?.checked || []\<close> and \<^verbatim>\<open>prev[activeStep]?.notes || ''\<close>.
\<close>

definition checkedOf :: "FindingsMap \<Rightarrow> nat \<Rightarrow> string list" where
  "checkedOf prev i = (case prev i of None \<Rightarrow> [] | Some d \<Rightarrow> checked d)"

definition notesOf :: "FindingsMap \<Rightarrow> nat \<Rightarrow> string" where
  "notesOf prev i = (case prev i of None \<Rightarrow> [] | Some d \<Rightarrow> notes d)"

definition updateFinding :: "string \<Rightarrow> session \<Rightarrow> session" where
  "updateFinding text s =
     s\<lparr>findings := (findings s)(activeStep s \<mapsto>
          \<lparr> checked = checkedOf (findings s) (activeStep s), notes = text \<rparr>)\<rparr>"

definition toggleChecklist :: "string \<Rightarrow> session \<Rightarrow> session" where
  "toggleChecklist item s =
     (let currentList = checkedOf (findings s) (activeStep s);
          newList = (if item \<in> set currentList
                     then filter (\<lambda>i. i \<noteq> item) currentList
                     else currentList @ [item])
      in s\<lparr>findings := (findings s)(activeStep s \<mapsto>
           \<lparr> checked = newList, notes = notesOf (findings s) (activeStep s) \<rparr>)\<rparr>)"

text \<open>The \<^verbatim>\<open>onClick\<close> of a step button, in the sidebar and in the mobile menu alike.\<close>

definition setActiveStep :: "nat \<Rightarrow> session \<Rightarrow> session" where
  "setActiveStep idx s = s\<lparr>activeStep := idx\<rparr>"

text \<open>
  The \<^verbatim>\<open>onClick\<close> of "Start New Review"; \<open>confirmed\<close> is the answer to
  \<^verbatim>\<open>window.confirm\<close>.
\<close>

definition startNewReview :: "bool \<Rightarrow> session \<Rightarrow> session" where
  "startNewReview confirmed s =
     (if confirmed
      then s\<lparr>reviewComplete := False, activeStep := 0, findings := Map.empty,
             contractName := [], isTimerRunning := False\<rparr>
      else s)"

text \<open>The callback of \<^verbatim>\<open>setInterval\<close>: \<^verbatim>\<open>setTimeLeft((prevTime) => prevTime - 1)\<close>.\<close>

definition tick :: "session \<Rightarrow> session" where
  "tick s = s\<lparr>timeLeft := timeLeft s - 1\<rparr>"

section \<open>Effects\<close>

text \<open>
  An effect body reads the values of the render it belongs to (\<open>r\<close>) and queues updates,
  applied here to the pending state \<open>s\<close>.

  Timer effect, dependencies \<^verbatim>\<open>[isTimerRunning, timeLeft]\<close>. Before the body runs again the
  cleanup of its previous run clears the interval.
\<close>

definition timerEffect :: "session \<Rightarrow> session \<Rightarrow> session" where
  "timerEffect r s =
     (if isTimerRunning r \<and> 0 < timeLeft r then s\<lparr>interval := True\<rparr>
      else if timeLeft r = 0 then s\<lparr>interval := False, isTimerRunning := False\<rparr>
      else s\<lparr>interval := False\<rparr>)"

text \<open>Step-change effect, dependencies \<^verbatim>\<open>[activeStep, steps]\<close>; \<^verbatim>\<open>steps\<close> is memoised.\<close>

definition stepChangeEffect :: "session \<Rightarrow> session \<Rightarrow> session option" where
  "stepChangeEffect r s =
     (case stepAt (activeStep r) of
        None \<Rightarrow> None
      | Some st \<Rightarrow>
          Some (s\<lparr>timeLeft := duration st, isTimerRunning := False, mobileMenuOpen := False\<rparr>))"

definition timerDepsChanged :: "session \<Rightarrow> session \<Rightarrow> bool" where
  "timerDepsChanged prev cur =
     (isTimerRunning prev \<noteq> isTimerRunning cur \<or> timeLeft prev \<noteq> timeLeft cur)"

text \<open>
  The effects that run after the render of \<open>cur\<close>, when the render before it was of
  \<open>prev\<close>: in the order of their declaration, each only if one of its dependencies
  differs between the two renders.
\<close>

definition effectPass :: "session \<Rightarrow> session \<Rightarrow> session option" where
  "effectPass prev cur =
     (let s1 = (if timerDepsChanged prev cur then timerEffect cur cur else cur)
      in if activeStep prev \<noteq> activeStep cur then stepChangeEffect cur s1 else Some s1)"

text \<open>
  Setting a state cell to the value it already has schedules no render. The effects
  write \<^verbatim>\<open>timeLeft\<close>, \<^verbatim>\<open>isTimerRunning\<close> and \<^verbatim>\<open>mobileMenuOpen\<close> only, so these decide
  whether the component renders again.
\<close>

definition rerender :: "session \<Rightarrow> session \<Rightarrow> bool" where
  "rerender cur nxt =
     (timeLeft nxt \<noteq> timeLeft cur \<or> isTimerRunning nxt \<noteq> isTimerRunning cur
      \<or> mobileMenuOpen nxt \<noteq> mobileMenuOpen cur)"

text \<open>Render, run the effects, and render again until the effects change nothing.\<close>

function settle :: "session \<Rightarrow> session \<Rightarrow> session option" where
  "settle prev cur =
     (case effectPass prev cur of
        None \<Rightarrow> None
      | Some nxt \<Rightarrow> if rerender cur nxt then settle cur nxt else Some nxt)"
  by pat_completeness auto
termination
proof (relation "measure (\<lambda>(prev, cur).
         (if activeStep prev \<noteq> activeStep cur then 2 else 0) + (if isTimerRunning cur then 1 else 0))")
  show "wf (measure (\<lambda>(prev, cur).
         (if activeStep prev \<noteq> activeStep cur then 2 else 0) + (if isTimerRunning cur then 1 else 0)))"
    by simp
next
  fix prev cur nxt
  assume E: "effectPass prev cur = Some nxt" and R: "rerender cur nxt"
  have A: "activeStep nxt = activeStep cur"
    using E
    by (cases "timerDepsChanged prev cur"; cases "activeStep prev = activeStep cur";
        cases "stepAt (activeStep cur)";
        cases "isTimerRunning cur \<and> 0 < timeLeft cur"; cases "timeLeft cur = 0")
       (auto simp: effectPass_def stepChangeEffect_def timerEffect_def)
  show "((cur, nxt), (prev, cur)) \<in> measure (\<lambda>(prev, cur).
         (if activeStep prev \<noteq> activeStep cur then 2 else 0) + (if isTimerRunning cur then 1 else 0))"
  proof (cases "activeStep prev = activeStep cur")
    case False
    with A show ?thesis by simp
  next
    case True
    with E have nxt: "nxt = (if timerDepsChanged prev cur then timerEffect cur cur else cur)"
      by (simp add: effectPass_def)
    have "isTimerRunning cur \<and> \<not> isTimerRunning nxt"
    proof (cases "timerDepsChanged prev cur")
      case False
      with nxt R show ?thesis by (simp add: rerender_def)
    next
      case True
      with nxt have "nxt = timerEffect cur cur" by simp
      with R show ?thesis
        by (cases "isTimerRunning cur \<and> 0 < timeLeft cur"; cases "timeLeft cur = 0")
           (auto simp: timerEffect_def rerender_def)
    qed
    with True A show ?thesis by simp
  qed
qed

text \<open>
  Mounting renders \<open>initial\<close> and runs both effects whatever their dependencies.
\<close>

definition mount :: "session option" where
  "mount =
     (case stepChangeEffect initial (timerEffect initial initial) of
        None \<Rightarrow> None
      | Some nxt \<Rightarrow> if rerender initial nxt then settle initial nxt else Some nxt)"

section \<open>Events\<close>

datatype event =
    ToggleTimer
  | ResetTimer
  | Next
  | Back
  | SidebarClick nat
  | MobileMenuClick nat
  | ToggleMobileMenu
  | SetContractName string
  | UpdateNotes string
  | ToggleChecklist string
  | Tick
  | ReturnToReview
  | CopyToClipboard
  | StartNewReview bool

text \<open>
  What the rendered page offers. With \<^verbatim>\<open>reviewComplete\<close> the summary view is returned
  and none of the review controls exists; a step button exists for each index of
  \<^verbatim>\<open>steps\<close>, the mobile ones only while the overlay is open; a checkbox exists for each
  item of the active step's checklist; the Back button is disabled on the first step;
  the interval callback fires only while the interval is live.
\<close>

fun enabled :: "event \<Rightarrow> session \<Rightarrow> bool" where
  "enabled Tick s = interval s"
| "enabled ReturnToReview s = reviewComplete s"
| "enabled CopyToClipboard s = reviewComplete s"
| "enabled (StartNewReview confirmed) s = reviewComplete s"
| "enabled Back s = (if reviewComplete s then False else activeStep s \<noteq> 0)"
| "enabled (SidebarClick idx) s = (if reviewComplete s then False else idx < length steps)"
| "enabled (MobileMenuClick idx) s =
     (if reviewComplete s then False else mobileMenuOpen s \<and> idx < length steps)"
| "enabled (ToggleChecklist item) s =
     (if reviewComplete s then False
      else (case stepAt (activeStep s) of None \<Rightarrow> False | Some st \<Rightarrow> item \<in> set (checklist st)))"
| "enabled ev s = (if reviewComplete s then False else True)"

fun handler :: "event \<Rightarrow> session \<Rightarrow> session option" where
  "handler ToggleTimer s = Some (toggleTimer s)"
| "handler ResetTimer s = resetTimer s"
| "handler Next s = Some (handleNext s)"
| "handler Back s = Some (handleBack s)"
| "handler (SidebarClick idx) s = Some (setActiveStep idx s)"
| "handler (MobileMenuClick idx) s = Some (setActiveStep idx s)"
| "handler ToggleMobileMenu s = Some (s\<lparr>mobileMenuOpen := \<not> mobileMenuOpen s\<rparr>)"
| "handler (SetContractName text) s = Some (s\<lparr>contractName := text\<rparr>)"
| "handler (UpdateNotes text) s = Some (updateFinding text s)"
| "handler (ToggleChecklist item) s = Some (toggleChecklist item s)"
| "handler Tick s = Some (tick s)"
| "handler ReturnToReview s = Some (s\<lparr>reviewComplete := False\<rparr>)"
| "handler CopyToClipboard s = Some s"
| "handler (StartNewReview confirmed) s = Some (startNewReview confirmed s)"

text \<open>
  One event on a settled page: the handler's updates are committed, then the effects
  run until nothing changes. \<open>None\<close>: the page does not offer the event, or a read of
  \<^verbatim>\<open>steps[activeStep]\<close> is out of range.
\<close>

definition dispatch :: "event \<Rightarrow> session \<Rightarrow> session option" where
  "dispatch ev s =
     (if enabled ev s
      then (case handler ev s of None \<Rightarrow> None | Some s1 \<Rightarrow> settle s s1)
      else None)"

fun run :: "event list \<Rightarrow> session \<Rightarrow> session option" where
  "run [] s = Some s"
| "run (ev # evs) s = (case dispatch ev s of None \<Rightarrow> None | Some s' \<Rightarrow> run evs s')"

inductive reachable :: "session \<Rightarrow> bool" where
  reachable_initial: "reachable initial"
| reachable_dispatch: "reachable s \<Longrightarrow> dispatch ev s = Some s' \<Longrightarrow> reachable s'"


section \<open>Sessions used as examples\<close>

text \<open>After starting the timer, one tick, and opening the mobile menu on the first step.\<close>

definition running_menu_open :: session where
  "running_menu_open =
     \<lparr> activeStep = 0, isTimerRunning = True, timeLeft = 59, findings = Map.empty,
       reviewComplete = False, contractName = [], mobileMenuOpen = True, interval = True \<rparr>"

text \<open>
  On the second step, after ticking "Deadlines" (its fifth item) and then
  "Payment Amount" (its first item).
\<close>

definition deadlines_then_payment :: session where
  "deadlines_then_payment =
     \<lparr> activeStep = 1, isTimerRunning = False, timeLeft = 120,
       findings = [1 \<mapsto> \<lparr> checked = [''Deadlines: Are dates hard or soft?'',
                                     ''Payment Amount: Is the math exact?''],
                         notes = [] \<rparr>],
       reviewComplete = False, contractName = [], mobileMenuOpen = False, interval = False \<rparr>"

text \<open>After typing a single space into the notes of the first step.\<close>

definition blank_notes :: session where
  "blank_notes =
     \<lparr> activeStep = 0, isTimerRunning = False, timeLeft = 60,
       findings = [0 \<mapsto> \<lparr> checked = [], notes = '' '' \<rparr>],
       reviewComplete = False, contractName = [], mobileMenuOpen = False, interval = False \<rparr>"

text \<open>The first step's timer, started and run down to zero.\<close>

definition timer_expired :: session where
  "timer_expired =
     \<lparr> activeStep = 0, isTimerRunning = False, timeLeft = 0, findings = Map.empty,
       reviewComplete = False, contractName = [], mobileMenuOpen = False, interval = False \<rparr>"

text \<open>
  The summary view, reached from the last step with the timer started and one tick
  gone, a note on the last step and a contract name.
\<close>

definition summary_view :: session where
  "summary_view =
     \<lparr> activeStep = 5, isTimerRunning = True, timeLeft = 59,
       findings = [5 \<mapsto> \<lparr> checked = [], notes = ''ok'' \<rparr>],
       reviewComplete = True, contractName = ''NDA'', mobileMenuOpen = False, interval = True \<rparr>"

section \<open>Invariants of the reachable sessions\<close>

text \<open>
  The timer: \<^verbatim>\<open>timeLeft\<close> is not negative, the interval is live exactly while the timer
  runs with time left, and a timer at zero is stopped.
\<close>

definition timerInv :: "session \<Rightarrow> bool" where
  "timerInv s \<longleftrightarrow>
     0 \<le> timeLeft s \<and> (interval s \<longleftrightarrow> isTimerRunning s \<and> 0 < timeLeft s)
     \<and> (timeLeft s = 0 \<longrightarrow> \<not> isTimerRunning s)"

text \<open>
  Navigation: the active step is one of the six, the summary view is only entered from
  the last step, and \<^verbatim>\<open>timeLeft\<close> is within the active step's budget.
\<close>

definition navInv :: "session \<Rightarrow> bool" where
  "navInv s \<longleftrightarrow>
     activeStep s < 6 \<and> (reviewComplete s \<longrightarrow> activeStep s = 5)
     \<and> timeLeft s \<le> duration (steps ! activeStep s)"

text \<open>
  Findings: records exist for the six steps only; a record's \<^verbatim>\<open>checked\<close> has no
  duplicates and holds labels of its step's checklist.
\<close>

definition findingsInv :: "FindingsMap \<Rightarrow> bool" where
  "findingsInv fm \<longleftrightarrow>
     (\<forall>i d. fm i = Some d \<longrightarrow>
        i < 6 \<and> distinct (checked d) \<and> set (checked d) \<subseteq> set (checklist (steps ! i)))"

section \<open>Facts about the catalogue, the effects and the events\<close>

lemma steps_length: "length steps = 6"
  by (simp add: steps_def)

lemma stepAt_in_range: "i < 6 \<Longrightarrow> stepAt i = Some (steps ! i)"
  by (simp add: stepAt_def steps_length)

lemma stepAt_Some_iff: "stepAt i = Some st \<longleftrightarrow> i < 6 \<and> st = steps ! i"
  by (auto simp: stepAt_def steps_length)

lemma less_6_cases: "i < 6 \<Longrightarrow> i = 0 \<or> i = 1 \<or> i = 2 \<or> i = 3 \<or> i = 4 \<or> i = (5::nat)"
  by arith

lemma duration_positive: "i < 6 \<Longrightarrow> 0 < duration (steps ! i)"
  by (drule less_6_cases) (auto simp: steps_def)

lemma timerEffect_fields:
  "activeStep (timerEffect r s) = activeStep s"
  "timeLeft (timerEffect r s) = timeLeft s"
  "findings (timerEffect r s) = findings s"
  "reviewComplete (timerEffect r s) = reviewComplete s"
  "contractName (timerEffect r s) = contractName s"
  "mobileMenuOpen (timerEffect r s) = mobileMenuOpen s"
  "interval (timerEffect r s) = (isTimerRunning r \<and> 0 < timeLeft r)"
  "isTimerRunning (timerEffect r s) =
     (if isTimerRunning r \<and> 0 < timeLeft r then isTimerRunning s
      else if timeLeft r = 0 then False else isTimerRunning s)"
  by (simp_all add: timerEffect_def)

lemma timerEffect_idem: "timerEffect (timerEffect s s) (timerEffect s s) = timerEffect s s"
  by (cases "isTimerRunning s \<and> 0 < timeLeft s"; cases "timeLeft s = 0")
     (auto simp: timerEffect_def)

lemma settle_same_step:
  assumes "activeStep prev = activeStep cur"
  shows "settle prev cur = Some (if timerDepsChanged prev cur then timerEffect cur cur else cur)"
proof (cases "timerDepsChanged prev cur")
  case False
  with assms have "effectPass prev cur = Some cur" by (simp add: effectPass_def)
  then show ?thesis using False by (simp add: rerender_def)
next
  case True
  let ?nxt = "timerEffect cur cur"
  from assms True have E: "effectPass prev cur = Some ?nxt" by (simp add: effectPass_def)
  show ?thesis
  proof (cases "rerender cur ?nxt")
    case False
    with E True show ?thesis by simp
  next
    case R: True
    then have D: "timerDepsChanged cur ?nxt"
      by (simp add: rerender_def timerDepsChanged_def timerEffect_fields)
    have "effectPass cur ?nxt = Some (timerEffect ?nxt ?nxt)"
      using D by (simp add: effectPass_def timerEffect_fields)
    then have E2: "effectPass cur ?nxt = Some ?nxt" by (simp add: timerEffect_idem)
    have "settle cur ?nxt = Some ?nxt"
      using E2 by (simp add: rerender_def)
    with E R True show ?thesis by simp
  qed
qed


lemma settle_step_changed:
  assumes C: "activeStep prev \<noteq> activeStep cur" and S: "stepAt (activeStep cur) = Some st"
  shows "settle prev cur =
           Some (cur\<lparr>timeLeft := duration st, isTimerRunning := False, mobileMenuOpen := False,
                     interval := (if isTimerRunning cur \<or> timeLeft cur \<noteq> duration st
                                     \<or> timerDepsChanged prev cur
                                  then False else interval cur)\<rparr>)"
proof -
  define s1 where "s1 = (if timerDepsChanged prev cur then timerEffect cur cur else cur)"
  define nxt where
    "nxt = s1\<lparr>timeLeft := duration st, isTimerRunning := False, mobileMenuOpen := False\<rparr>"
  have E: "effectPass prev cur = Some nxt"
    using C S by (simp add: effectPass_def stepChangeEffect_def s1_def nxt_def)
  have s1_int: "interval s1 = (if timerDepsChanged prev cur then isTimerRunning cur \<and> 0 < timeLeft cur
                               else interval cur)"
    by (simp add: s1_def timerEffect_fields)
  have nxt_eq: "nxt = cur\<lparr>timeLeft := duration st, isTimerRunning := False, mobileMenuOpen := False,
                     interval := interval s1\<rparr>"
    by (cases "isTimerRunning cur \<and> 0 < timeLeft cur"; cases "timeLeft cur = 0")
       (auto simp: nxt_def s1_def timerEffect_def)
  have R: "rerender cur nxt \<longleftrightarrow>
             (duration st \<noteq> timeLeft cur \<or> isTimerRunning cur \<or> mobileMenuOpen cur)"
    by (auto simp: rerender_def nxt_eq)
  show ?thesis
  proof (cases "rerender cur nxt")
    case False
    with E have "settle prev cur = Some nxt" by simp
    moreover from False R have "\<not> isTimerRunning cur" "timeLeft cur = duration st" by auto
    ultimately show ?thesis by (simp add: nxt_eq s1_int)
  next
    case True
    have same: "activeStep cur = activeStep nxt" by (simp add: nxt_eq)
    have D: "timerDepsChanged cur nxt \<longleftrightarrow> (isTimerRunning cur \<or> timeLeft cur \<noteq> duration st)"
      by (auto simp: timerDepsChanged_def nxt_eq)
    have TE: "timerEffect nxt nxt = nxt\<lparr>interval := False\<rparr>"
      by (cases "duration st = 0") (auto simp: timerEffect_def nxt_eq)
    have "settle prev cur = settle cur nxt" using E True by simp
    also have "\<dots> = Some (if timerDepsChanged cur nxt then timerEffect nxt nxt else nxt)"
      by (rule settle_same_step [OF same])
    finally show ?thesis
      using D TE by (auto simp: nxt_eq s1_int)
  qed
qed


declare settle.simps [simp del]

lemma settle_result:
  assumes "settle prev cur = Some s'"
  shows "activeStep s' = activeStep cur \<and> findings s' = findings cur
         \<and> reviewComplete s' = reviewComplete cur \<and> contractName s' = contractName cur
         \<and> (if activeStep prev = activeStep cur
             then timeLeft s' = timeLeft cur \<and> mobileMenuOpen s' = mobileMenuOpen cur
             else activeStep cur < 6 \<and> timeLeft s' = duration (steps ! activeStep cur)
                  \<and> \<not> isTimerRunning s' \<and> \<not> mobileMenuOpen s')"
proof (cases "activeStep prev = activeStep cur")
  case True
  from assms settle_same_step [OF True]
  have "s' = (if timerDepsChanged prev cur then timerEffect cur cur else cur)" by simp
  with True show ?thesis by (simp add: timerEffect_fields)
next
  case False
  show ?thesis
  proof (cases "stepAt (activeStep cur)")
    case None
    with False have "effectPass prev cur = None"
      by (simp add: effectPass_def stepChangeEffect_def)
    with assms show ?thesis by (simp add: settle.simps)
  next
    case (Some st)
    then have st: "activeStep cur < 6" "st = steps ! activeStep cur"
      by (simp_all add: stepAt_Some_iff)
    from assms settle_step_changed [OF False Some] st False show ?thesis by auto
  qed
qed

lemma settle_timerInv:
  assumes P: "timerInv prev" and I: "interval cur = interval prev" and T: "0 \<le> timeLeft cur"
    and S: "settle prev cur = Some s'"
  shows "timerInv s'"
proof (cases "activeStep prev = activeStep cur")
  case True
  from S settle_same_step [OF True]
  have s': "s' = (if timerDepsChanged prev cur then timerEffect cur cur else cur)" by simp
  show ?thesis
  proof (cases "timerDepsChanged prev cur")
    case False
    with s' P I show ?thesis by (simp add: timerInv_def timerDepsChanged_def)
  next
    case True
    with s' T show ?thesis by (auto simp: timerInv_def timerEffect_fields)
  qed
next
  case False
  show ?thesis
  proof (cases "stepAt (activeStep cur)")
    case None
    with False have "effectPass prev cur = None"
      by (simp add: effectPass_def stepChangeEffect_def)
    with S show ?thesis by (simp add: settle.simps)
  next
    case (Some st)
    then have "activeStep cur < 6" "st = steps ! activeStep cur"
      by (simp_all add: stepAt_Some_iff)
    then have d: "0 < duration st" by (simp add: duration_positive)
    from S settle_step_changed [OF False Some]
    have "s' = cur\<lparr>timeLeft := duration st, isTimerRunning := False, mobileMenuOpen := False,
                     interval := (if isTimerRunning cur \<or> timeLeft cur \<noteq> duration st
                                     \<or> timerDepsChanged prev cur
                                  then False else interval cur)\<rparr>"
      by simp
    with d P I show ?thesis
      by (auto simp: timerInv_def timerDepsChanged_def split: if_splits)
  qed
qed


lemma timerInv_initial: "timerInv initial"
  by (simp add: timerInv_def initial_def)

lemma navInv_initial: "navInv initial"
  by (simp add: navInv_def initial_def steps_def)

lemma findingsInv_empty: "findingsInv Map.empty"
  by (simp add: findingsInv_def)

lemma handler_interval:
  "handler ev s = Some s1 \<Longrightarrow> interval s1 = interval s"
  by (cases ev)
     (auto simp: toggleTimer_def resetTimer_def handleNext_def handleBack_def setActiveStep_def
        updateFinding_def toggleChecklist_def tick_def startNewReview_def Let_def
        split: option.splits if_splits)

lemma handler_timeLeft:
  assumes "handler ev s = Some s1" and "enabled ev s" and "timerInv s"
  shows "0 \<le> timeLeft s1"
proof (cases ev)
  case ResetTimer
  with assms show ?thesis
    using duration_positive [of "activeStep s"]
    by (auto simp: resetTimer_def stepAt_Some_iff split: option.splits)
next
  case Tick
  with assms show ?thesis by (auto simp: tick_def timerInv_def)
qed (use assms in \<open>auto simp: toggleTimer_def handleNext_def handleBack_def setActiveStep_def
        updateFinding_def toggleChecklist_def startNewReview_def Let_def timerInv_def
        split: if_splits\<close>)

lemma dispatch_timerInv:
  assumes "timerInv s" and "dispatch ev s = Some s'"
  shows "timerInv s'"
proof -
  from assms(2) obtain s1 where en: "enabled ev s" and h: "handler ev s = Some s1"
    and st: "settle s s1 = Some s'"
    by (auto simp: dispatch_def split: if_splits option.splits)
  show ?thesis
    using assms(1) handler_interval [OF h] handler_timeLeft [OF h en assms(1)] st
    by (rule settle_timerInv)
qed

lemma handler_findingsInv:
  assumes "handler ev s = Some s1" and "enabled ev s" and "findingsInv (findings s)"
    and "activeStep s < 6"
  shows "findingsInv (findings s1)"
proof (cases ev)
  case (UpdateNotes t)
  with assms(1) have s1: "s1 = updateFinding t s" by simp
  show ?thesis
    unfolding findingsInv_def
  proof (intro allI impI)
    fix i d assume f: "findings s1 i = Some d"
    show "i < 6 \<and> distinct (checked d) \<and> set (checked d) \<subseteq> set (checklist (steps ! i))"
    proof (cases "i = activeStep s")
      case False
      with f s1 have "findings s i = Some d" by (simp add: updateFinding_def)
      with assms(3) show ?thesis by (simp add: findingsInv_def)
    next
      case True
      with f s1 have "checked d = checkedOf (findings s) (activeStep s)"
        by (auto simp: updateFinding_def)
      with assms(3,4) True show ?thesis
        by (auto simp: findingsInv_def checkedOf_def split: option.splits)
    qed
  qed
next
  case (ToggleChecklist item)
  from ToggleChecklist assms(2) have a: "activeStep s < 6"
    and it: "item \<in> set (checklist (steps ! activeStep s))"
    by (auto simp: stepAt_Some_iff split: if_splits option.splits)
  from ToggleChecklist assms(1) have s1: "s1 = toggleChecklist item s" by simp
  show ?thesis
    unfolding findingsInv_def
  proof (intro allI impI)
    fix i d assume f: "findings s1 i = Some d"
    show "i < 6 \<and> distinct (checked d) \<and> set (checked d) \<subseteq> set (checklist (steps ! i))"
    proof (cases "i = activeStep s")
      case False
      with f s1 have "findings s i = Some d" by (simp add: toggleChecklist_def Let_def)
      with assms(3) show ?thesis by (simp add: findingsInv_def)
    next
      case True
      define cur where "cur = checkedOf (findings s) (activeStep s)"
      have c: "distinct cur \<and> set cur \<subseteq> set (checklist (steps ! activeStep s))"
        using assms(3) by (auto simp: cur_def checkedOf_def findingsInv_def split: option.splits)
      from f s1 True have "checked d =
          (if item \<in> set cur then filter (\<lambda>i. i \<noteq> item) cur else cur @ [item])"
        by (auto simp: toggleChecklist_def Let_def cur_def)
      with c it a True show ?thesis by auto
    qed
  qed
qed (use assms in \<open>auto simp: toggleTimer_def resetTimer_def handleNext_def handleBack_def
        setActiveStep_def tick_def startNewReview_def findingsInv_empty
        split: if_splits option.splits\<close>)


lemma dispatch_findingsInv:
  assumes "findingsInv (findings s)" and "activeStep s < 6" and "dispatch ev s = Some s'"
  shows "findingsInv (findings s')"
proof -
  from assms(3) obtain s1 where en: "enabled ev s" and h: "handler ev s = Some s1"
    and st: "settle s s1 = Some s'"
    by (auto simp: dispatch_def split: if_splits option.splits)
  from settle_result [OF st] have "findings s' = findings s1" by simp
  with handler_findingsInv [OF h en assms(1,2)] show ?thesis by simp
qed

lemma dispatch_navInv:
  assumes N: "navInv s" and T: "timerInv s" and D: "dispatch ev s = Some s'"
  shows "navInv s'"
proof -
  from D obtain s1 where en: "enabled ev s" and h: "handler ev s = Some s1"
    and st: "settle s s1 = Some s'"
    by (auto simp: dispatch_def split: if_splits option.splits)
  note r = settle_result [OF st]
  have h1: "(reviewComplete s1 \<longrightarrow> activeStep s1 = 5)
            \<and> (activeStep s1 = activeStep s \<longrightarrow> activeStep s1 < 6 \<and> timeLeft s1 \<le> duration (steps ! activeStep s1))"
    using h en N
    by (cases ev)
       (auto simp: navInv_def toggleTimer_def resetTimer_def handleNext_def handleBack_def
          setActiveStep_def updateFinding_def toggleChecklist_def tick_def startNewReview_def
          Let_def steps_length stepAt_Some_iff
          split: if_splits option.splits)
  show ?thesis
  proof (cases "activeStep s = activeStep s1")
    case True
    with r h1 show ?thesis by (simp add: navInv_def)
  next
    case False
    with r h1 show ?thesis by (simp add: navInv_def)
  qed
qed

lemma reachable_inv: "reachable s \<Longrightarrow> timerInv s \<and> navInv s \<and> findingsInv (findings s)"
proof (induction rule: reachable.induct)
  case reachable_initial
  show ?case
    using timerInv_initial navInv_initial findingsInv_empty by (simp add: initial_def)
next
  case (reachable_dispatch s ev s')
  then have "activeStep s < 6" by (simp add: navInv_def)
  with reachable_dispatch show ?case
    using dispatch_timerInv dispatch_navInv dispatch_findingsInv by blast
qed

lemma run_reachable: "reachable s \<Longrightarrow> run evs s = Some s' \<Longrightarrow> reachable s'"
proof (induction evs arbitrary: s)
  case Nil
  then show ?case by simp
next
  case (Cons ev evs)
  from Cons.prems(2) obtain s1 where d: "dispatch ev s = Some s1" and r: "run evs s1 = Some s'"
    by (auto split: option.splits)
  from Cons.prems(1) d have "reachable s1" by (rule reachable_dispatch)
  then show ?case using r by (rule Cons.IH)
qed

lemma mount_initial: "mount = Some initial"
  by (simp add: mount_def initial_def stepChangeEffect_def timerEffect_def stepAt_def
        steps_def rerender_def)

lemma dispatch_same_step:
  assumes "enabled ev s" and "handler ev s = Some s1" and "activeStep s1 = activeStep s"
  shows "dispatch ev s = Some (if timerDepsChanged s s1 then timerEffect s1 s1 else s1)"
  using assms settle_same_step [of s s1] by (simp add: dispatch_def)

lemma dispatch_step_changed:
  assumes "enabled ev s" and "handler ev s = Some s1" and "activeStep s1 \<noteq> activeStep s"
    and "activeStep s1 < 6"
  shows "dispatch ev s =
           Some (s1\<lparr>timeLeft := duration (steps ! activeStep s1), isTimerRunning := False,
                    mobileMenuOpen := False,
                    interval := (if isTimerRunning s1 \<or> timeLeft s1 \<noteq> duration (steps ! activeStep s1)
                                    \<or> timerDepsChanged s s1
                                 then False else interval s1)\<rparr>)"
proof -
  have "activeStep s \<noteq> activeStep s1" using assms(3) by simp
  moreover have "stepAt (activeStep s1) = Some (steps ! activeStep s1)"
    using assms(4) by (rule stepAt_in_range)
  ultimately show ?thesis
    using assms(1,2) by (simp add: dispatch_def settle_step_changed)
qed

section \<open>Navigation\<close>

text \<open>
  C6: in the review view, Next on the last step (index 5) sets \<^verbatim>\<open>reviewComplete\<close> and
  leaves \<^verbatim>\<open>activeStep\<close> at 5; Next on an earlier step adds exactly 1 to \<^verbatim>\<open>activeStep\<close>
  and does not set \<^verbatim>\<open>reviewComplete\<close>.
\<close>

theorem C6_next_advances_or_finishes:
  assumes "\<not> reviewComplete s"
  shows "(activeStep s = 5 \<longrightarrow>
            (\<exists>s'. dispatch Next s = Some s' \<and> reviewComplete s' \<and> activeStep s' = 5))
       \<and> (activeStep s < 5 \<longrightarrow>
            (\<exists>s'. dispatch Next s = Some s' \<and> activeStep s' = activeStep s + 1
                  \<and> \<not> reviewComplete s'))"
proof (intro conjI impI)
  assume last: "activeStep s = 5"
  have en: "enabled Next s" using assms by simp
  have h: "handler Next s = Some (s\<lparr>reviewComplete := True\<rparr>)"
    using last by (simp add: handleNext_def steps_length)
  have "dispatch Next s = Some (s\<lparr>reviewComplete := True\<rparr>)"
    using dispatch_same_step [OF en h] by (simp add: timerDepsChanged_def)
  with last show "\<exists>s'. dispatch Next s = Some s' \<and> reviewComplete s' \<and> activeStep s' = 5"
    by simp
next
  assume earlier: "activeStep s < 5"
  have en: "enabled Next s" using assms by simp
  have h: "handler Next s = Some (s\<lparr>activeStep := activeStep s + 1\<rparr>)"
    using earlier by (simp add: handleNext_def steps_length)
  from dispatch_step_changed [OF en h] earlier assms
  show "\<exists>s'. dispatch Next s = Some s' \<and> activeStep s' = activeStep s + 1 \<and> \<not> reviewComplete s'"
    by simp
qed

text \<open>Next on the first step of a fresh session, and on the last step.\<close>

theorem C6_next_witness:
  "\<not> reviewComplete initial \<and> activeStep initial < 5
   \<and> (\<exists>s'. dispatch Next initial = Some s' \<and> activeStep s' = activeStep initial + 1
            \<and> \<not> reviewComplete s')
   \<and> \<not> reviewComplete (initial\<lparr>activeStep := 5\<rparr>)
   \<and> (\<exists>s'. dispatch Next (initial\<lparr>activeStep := 5\<rparr>) = Some s' \<and> reviewComplete s'
            \<and> activeStep s' = 5)"
  using C6_next_advances_or_finishes [of initial]
    C6_next_advances_or_finishes [of "initial\<lparr>activeStep := 5\<rparr>"]
  by (simp add: initial_def)

text \<open>
  C4: from step \<open>N\<close>, whatever the timer and the menu are, reaching a different step
  \<open>M\<close> by a sidebar click, a mobile menu click, Next or Back leaves
  \<^verbatim>\<open>timeLeft\<close> at the duration of step \<open>M\<close>, the timer stopped and the mobile menu
  closed.
\<close>

theorem C4_step_change_resets_timer:
  assumes "\<not> reviewComplete s" and "activeStep s = N" and "M \<noteq> N" and "M < length steps"
    and "ev = SidebarClick M \<or> (ev = MobileMenuClick M \<and> mobileMenuOpen s)
         \<or> (ev = Next \<and> M = N + 1) \<or> (ev = Back \<and> N = M + 1)"
  shows "\<exists>s'. dispatch ev s = Some s' \<and> activeStep s' = M
              \<and> timeLeft s' = duration (steps ! M)
              \<and> \<not> isTimerRunning s' \<and> \<not> mobileMenuOpen s'"
proof -
  have en: "enabled ev s" using assms by auto
  have h: "handler ev s = Some (s\<lparr>activeStep := M\<rparr>)"
    using assms by (auto simp: setActiveStep_def handleNext_def handleBack_def)
  have "activeStep (s\<lparr>activeStep := M\<rparr>) \<noteq> activeStep s" using assms by simp
  moreover have "activeStep (s\<lparr>activeStep := M\<rparr>) < 6" using assms by (simp add: steps_length)
  ultimately show ?thesis
    using dispatch_step_changed [OF en h] by simp
qed

text \<open>
  From the first step, with the timer running at 59 seconds and the menu open, to the
  second step by the mobile menu.
\<close>

theorem C4_step_change_witness:
  "\<not> reviewComplete running_menu_open \<and> activeStep running_menu_open = 0
   \<and> (1::nat) \<noteq> 0 \<and> 1 < length steps \<and> mobileMenuOpen running_menu_open
   \<and> isTimerRunning running_menu_open \<and> timeLeft running_menu_open = 59
   \<and> (\<exists>s'. dispatch (MobileMenuClick 1) running_menu_open = Some s' \<and> activeStep s' = 1
            \<and> timeLeft s' = duration (steps ! 1) \<and> timeLeft s' = 120
            \<and> \<not> isTimerRunning s' \<and> \<not> mobileMenuOpen s')"
  using C4_step_change_resets_timer [of running_menu_open 0 1 "MobileMenuClick 1"]
  by (simp add: running_menu_open_def steps_def)

text \<open>
  C3, as the specification states it, fails: with the timer running at 59 of 60 seconds
  and the mobile menu open on the first step, a click on the first step's entry, in the
  mobile menu or in the sidebar, leaves the timer running at 59 and the menu open.
\<close>

theorem C3_counterexample:
  "run [ToggleTimer, Tick, ToggleMobileMenu] initial = Some running_menu_open
   \<and> activeStep running_menu_open = 0
   \<and> dispatch (MobileMenuClick 0) running_menu_open = Some running_menu_open
   \<and> dispatch (SidebarClick 0) running_menu_open = Some running_menu_open
   \<and> isTimerRunning running_menu_open
   \<and> timeLeft running_menu_open = 59
   \<and> duration (steps ! 0) = 60
   \<and> mobileMenuOpen running_menu_open"
  by (simp add: dispatch_def settle_same_step initial_def running_menu_open_def
        toggleTimer_def tick_def setActiveStep_def timerDepsChanged_def timerEffect_def
        steps_def)

text \<open>
  C3, amended: a click on the entry of the step that is already active, in the sidebar
  or in the mobile menu, sets \<^verbatim>\<open>activeStep\<close> to the value it has, so no dependency of
  the step-change effect differs and the session is left exactly as it was: the timer,
  \<^verbatim>\<open>timeLeft\<close> and the mobile menu keep their values.
\<close>

theorem C3_click_on_active_step_is_noop:
  assumes "enabled ev s"
    and "ev = SidebarClick (activeStep s) \<or> ev = MobileMenuClick (activeStep s)"
  shows "dispatch ev s = Some s"
proof -
  from assms(2) have h: "handler ev s = Some s" by (auto simp: setActiveStep_def)
  from dispatch_same_step [OF assms(1) h] show ?thesis
    by (simp add: timerDepsChanged_def)
qed

text \<open>The mobile menu click on the active first step, menu open and timer running.\<close>

theorem C3_click_on_active_step_witness:
  "enabled (MobileMenuClick 0) running_menu_open
   \<and> activeStep running_menu_open = 0
   \<and> dispatch (MobileMenuClick 0) running_menu_open = Some running_menu_open"
  using C3_click_on_active_step_is_noop [of "MobileMenuClick 0" running_menu_open]
  by (simp add: running_menu_open_def steps_length)

section \<open>Findings capture\<close>

text \<open>
  C9: while step \<open>A\<close> is active, toggling a checklist item or replacing the notes
  leaves the record stored for any other step \<open>B\<close> as it was, absent or present.
\<close>

theorem C9_other_steps_unchanged:
  assumes "activeStep s = A" and "B \<noteq> A"
  shows "findings (toggleChecklist item s) B = findings s B
       \<and> findings (updateFinding t s) B = findings s B
       \<and> (\<forall>s'. dispatch (ToggleChecklist item) s = Some s' \<longrightarrow> findings s' B = findings s B)
       \<and> (\<forall>s'. dispatch (UpdateNotes t) s = Some s' \<longrightarrow> findings s' B = findings s B)"
proof -
  have t: "findings (toggleChecklist item s) B = findings s B"
    using assms by (simp add: toggleChecklist_def Let_def)
  have u: "findings (updateFinding t s) B = findings s B"
    using assms by (simp add: updateFinding_def)
  have dt: "findings s' B = findings s B" if "dispatch (ToggleChecklist item) s = Some s'" for s'
  proof -
    from that have "settle s (toggleChecklist item s) = Some s'"
      by (simp add: dispatch_def split: if_splits)
    from settle_result [OF this] t show ?thesis by simp
  qed
  have du: "findings s' B = findings s B" if "dispatch (UpdateNotes t) s = Some s'" for s'
  proof -
    from that have "settle s (updateFinding t s) = Some s'"
      by (simp add: dispatch_def split: if_splits)
    from settle_result [OF this] u show ?thesis by simp
  qed
  from t u dt du show ?thesis by blast
qed

text \<open>
  With the first step active, a toggle and a notes edit leave the record of the second
  step, which holds two checked items, as it was.
\<close>

theorem C9_other_steps_witness:
  "activeStep deadlines_then_payment = 1 \<and> (0::nat) \<noteq> 1
   \<and> findings deadlines_then_payment 1 \<noteq> None
   \<and> findings (toggleChecklist ''Payment Schedule: When is it due?'' (deadlines_then_payment\<lparr>activeStep := 0\<rparr>)) 1
       = findings deadlines_then_payment 1
   \<and> findings (updateFinding ''x'' (deadlines_then_payment\<lparr>activeStep := 0\<rparr>)) 1
       = findings deadlines_then_payment 1"
  using C9_other_steps_unchanged
    [of "deadlines_then_payment\<lparr>activeStep := 0\<rparr>" 0 1 "''Payment Schedule: When is it due?''" "''x''"]
  by (simp add: deadlines_then_payment_def)

section \<open>The timer\<close>

lemma dispatch_tick_running:
  assumes "interval s" and "1 < timeLeft s" and "isTimerRunning s"
  shows "dispatch Tick s = Some (s\<lparr>timeLeft := timeLeft s - 1\<rparr>)"
proof -
  have en: "enabled Tick s" using assms by simp
  have h: "handler Tick s = Some (tick s)" by simp
  have "activeStep (tick s) = activeStep s" by (simp add: tick_def)
  from dispatch_same_step [OF en h this] assms show ?thesis
    by (simp add: timerDepsChanged_def timerEffect_def tick_def)
qed

lemma dispatch_tick_last:
  assumes "interval s" and "timeLeft s = 1" and "isTimerRunning s"
  shows "dispatch Tick s = Some (s\<lparr>timeLeft := 0, isTimerRunning := False, interval := False\<rparr>)"
proof -
  have en: "enabled Tick s" using assms by simp
  have h: "handler Tick s = Some (tick s)" by simp
  have "activeStep (tick s) = activeStep s" by (simp add: tick_def)
  from dispatch_same_step [OF en h this] assms show ?thesis
    by (simp add: timerDepsChanged_def timerEffect_def tick_def)
qed

lemma run_ticks:
  assumes "interval s" and "isTimerRunning s" and "timeLeft s = int n + k" and "0 < k"
  shows "run (replicate n Tick) s = Some (s\<lparr>timeLeft := k\<rparr>)"
  using assms
proof (induction n arbitrary: s)
  case 0
  then show ?case by simp
next
  case (Suc n)
  from Suc.prems have "1 < timeLeft s" by simp
  with Suc.prems have d: "dispatch Tick s = Some (s\<lparr>timeLeft := timeLeft s - 1\<rparr>)"
    by (simp add: dispatch_tick_running)
  have "run (replicate n Tick) (s\<lparr>timeLeft := timeLeft s - 1\<rparr>)
          = Some (s\<lparr>timeLeft := timeLeft s - 1\<rparr>\<lparr>timeLeft := k\<rparr>)"
    using Suc.prems by (intro Suc.IH) simp_all
  with d show ?case by simp
qed

lemma run_append:
  "run (evs @ evs') s = (case run evs s of None \<Rightarrow> None | Some s' \<Rightarrow> run evs' s')"
  by (induction evs arbitrary: s) (auto split: option.splits)

lemma reachable_timer_expired: "reachable timer_expired"
proof -
  let ?started = "initial\<lparr>isTimerRunning := True, interval := True\<rparr>"
  have a: "dispatch ToggleTimer initial = Some ?started"
    by (simp add: dispatch_def settle_same_step initial_def toggleTimer_def
          timerDepsChanged_def timerEffect_def)
  have b: "run (replicate 59 Tick) ?started = Some (?started\<lparr>timeLeft := 1\<rparr>)"
    by (rule run_ticks) (simp_all add: initial_def)
  have c: "dispatch Tick (?started\<lparr>timeLeft := 1\<rparr>) = Some timer_expired"
    by (simp add: dispatch_tick_last initial_def timer_expired_def)
  have "run (ToggleTimer # replicate 59 Tick @ [Tick]) initial = Some timer_expired"
    using a b c by (simp add: run_append)
  with reachable_initial show ?thesis by (rule run_reachable)
qed

text \<open>
  C7: in every reachable session \<^verbatim>\<open>timeLeft\<close> is not negative; when it is 0 the timer
  is stopped and the interval callback can no longer fire; and a tick that does fire
  takes exactly one second off, never below 0, stopping the timer when it reaches 0.
\<close>

theorem C7_timer_stops_at_zero:
  assumes "reachable s"
  shows "0 \<le> timeLeft s
       \<and> (timeLeft s = 0 \<longrightarrow> \<not> isTimerRunning s \<and> dispatch Tick s = None)
       \<and> (\<forall>s'. dispatch Tick s = Some s' \<longrightarrow>
             timeLeft s' = timeLeft s - 1 \<and> 0 \<le> timeLeft s'
             \<and> (timeLeft s' = 0 \<longrightarrow> \<not> isTimerRunning s'))"
proof -
  from assms have T: "timerInv s" by (simp add: reachable_inv)
  have tick: "timeLeft s' = timeLeft s - 1 \<and> 0 \<le> timeLeft s'
              \<and> (timeLeft s' = 0 \<longrightarrow> \<not> isTimerRunning s')"
    if d: "dispatch Tick s = Some s'" for s'
  proof -
    from assms d have "reachable s'" by (rule reachable_dispatch)
    then have T': "timerInv s'" by (simp add: reachable_inv)
    from d have "settle s (tick s) = Some s'" by (simp add: dispatch_def split: if_splits)
    from settle_result [OF this] have "timeLeft s' = timeLeft s - 1" by (simp add: tick_def)
    with T' show ?thesis by (simp add: timerInv_def)
  qed
  from T have nonneg: "0 \<le> timeLeft s" by (simp add: timerInv_def)
  from T have zero: "timeLeft s = 0 \<longrightarrow> \<not> isTimerRunning s \<and> dispatch Tick s = None"
    by (simp add: timerInv_def dispatch_def)
  from nonneg zero tick show ?thesis by blast
qed

text \<open>The first step's timer after sixty ticks.\<close>

theorem C7_timer_witness:
  "reachable timer_expired \<and> timeLeft timer_expired = 0
   \<and> \<not> isTimerRunning timer_expired \<and> dispatch Tick timer_expired = None"
  using C7_timer_stops_at_zero [OF reachable_timer_expired] reachable_timer_expired
  by (simp add: timer_expired_def)

section \<open>Starting a new review\<close>

lemma checkedOf_update: "checkedOf (fm(i \<mapsto> d)) i = checked d"
  by (simp add: checkedOf_def)

lemma reachable_summary_view: "reachable summary_view"
proof -
  have "run [SetContractName ''NDA'', Next, Next, Next, Next, Next, UpdateNotes ''ok'',
             ToggleTimer, Tick, Next] initial = Some summary_view"
    by (simp add: dispatch_def settle_same_step settle_step_changed stepAt_def
          initial_def summary_view_def handleNext_def updateFinding_def checkedOf_def
          toggleTimer_def tick_def timerDepsChanged_def timerEffect_def steps_def
          eval_nat_numeral)
  with reachable_initial show ?thesis by (rule run_reachable)
qed

text \<open>
  C5: from every reachable session that shows the summary view, a confirmed
  "Start New Review" yields \<^verbatim>\<open>activeStep = 0\<close>, an empty findings map, an empty contract
  name, \<^verbatim>\<open>reviewComplete = false\<close>, a stopped timer and \<^verbatim>\<open>timeLeft\<close> equal to the first
  step's duration, 60. (The summary view is only entered from the last step, so the
  reset changes \<^verbatim>\<open>activeStep\<close> and the step-change effect restores \<^verbatim>\<open>timeLeft\<close>.)
\<close>

theorem C5_start_new_review_resets_session:
  assumes "reachable s" and "reviewComplete s"
  shows "\<exists>s'. dispatch (StartNewReview True) s = Some s'
              \<and> activeStep s' = 0 \<and> findings s' = Map.empty \<and> contractName s' = []
              \<and> \<not> reviewComplete s' \<and> \<not> isTimerRunning s'
              \<and> timeLeft s' = duration (steps ! 0) \<and> timeLeft s' = 60"
proof -
  from assms have last: "activeStep s = 5" by (simp add: reachable_inv [unfolded navInv_def])
  have en: "enabled (StartNewReview True) s" using assms(2) by simp
  let ?s1 = "s\<lparr>reviewComplete := False, activeStep := 0, findings := Map.empty,
                contractName := [], isTimerRunning := False\<rparr>"
  have h: "handler (StartNewReview True) s = Some ?s1" by (simp add: startNewReview_def)
  have "activeStep ?s1 \<noteq> activeStep s" using last by simp
  moreover have "activeStep ?s1 < 6" by simp
  moreover have "duration (steps ! 0) = 60" by (simp add: steps_def)
  ultimately show ?thesis
    using dispatch_step_changed [OF en h] by simp
qed

text \<open>
  The summary view reached with a running timer at 59 seconds, a contract name and a
  note.
\<close>

theorem C5_start_new_review_witness:
  "reachable summary_view \<and> reviewComplete summary_view
   \<and> isTimerRunning summary_view \<and> timeLeft summary_view = 59
   \<and> contractName summary_view = ''NDA'' \<and> findings summary_view 5 \<noteq> None
   \<and> (\<exists>s'. dispatch (StartNewReview True) summary_view = Some s'
              \<and> activeStep s' = 0 \<and> findings s' = Map.empty \<and> contractName s' = []
              \<and> \<not> reviewComplete s' \<and> \<not> isTimerRunning s'
              \<and> timeLeft s' = duration (steps ! 0) \<and> timeLeft s' = 60)"
  using C5_start_new_review_resets_session [OF reachable_summary_view] reachable_summary_view
  by (simp add: summary_view_def)

section \<open>The checked collection\<close>

lemma reachable_deadlines_then_payment: "reachable deadlines_then_payment"
proof -
  have "run [SidebarClick 1, ToggleChecklist ''Deadlines: Are dates hard or soft?'',
             ToggleChecklist ''Payment Amount: Is the math exact?''] initial
          = Some deadlines_then_payment"
    by (simp add: dispatch_def settle_same_step settle_step_changed stepAt_def
          initial_def deadlines_then_payment_def setActiveStep_def toggleChecklist_def
          checkedOf_def notesOf_def timerDepsChanged_def steps_def)
  with reachable_initial show ?thesis by (rule run_reachable)
qed

text \<open>
  C10: in every reachable session each stored record belongs to one of the six steps,
  its \<^verbatim>\<open>checked\<close> holds no label twice and only labels of that step's checklist; and a
  toggle leaves the toggled label once in the active step's \<^verbatim>\<open>checked\<close> if it was
  absent, and not at all if it was present.
\<close>

theorem C10_checked_is_duplicate_free_subset:
  assumes "reachable s"
  shows "(\<forall>i d. findings s i = Some d \<longrightarrow>
            i < length steps \<and> distinct (checked d)
            \<and> set (checked d) \<subseteq> set (checklist (steps ! i)))
       \<and> (\<forall>item s'. dispatch (ToggleChecklist item) s = Some s' \<longrightarrow>
            count_list (checkedOf (findings s') (activeStep s)) item
              = (if item \<in> set (checkedOf (findings s) (activeStep s)) then 0 else 1))"
proof (rule conjI)
  show "\<forall>i d. findings s i = Some d \<longrightarrow>
            i < length steps \<and> distinct (checked d)
            \<and> set (checked d) \<subseteq> set (checklist (steps ! i))"
    using reachable_inv [OF assms] by (simp add: findingsInv_def steps_length)
next
  show "\<forall>item s'. dispatch (ToggleChecklist item) s = Some s' \<longrightarrow>
            count_list (checkedOf (findings s') (activeStep s)) item
              = (if item \<in> set (checkedOf (findings s) (activeStep s)) then 0 else 1)"
  proof (intro allI impI)
    fix item s' assume d: "dispatch (ToggleChecklist item) s = Some s'"
    then have "settle s (toggleChecklist item s) = Some s'"
      by (simp add: dispatch_def split: if_splits)
    from settle_result [OF this]
    have f: "findings s' = findings (toggleChecklist item s)" by simp
    define cur where "cur = checkedOf (findings s) (activeStep s)"
    have new: "checkedOf (findings s') (activeStep s)
                 = (if item \<in> set cur then filter (\<lambda>i. i \<noteq> item) cur else cur @ [item])"
      by (simp add: f toggleChecklist_def Let_def checkedOf_update cur_def)
    have "count_list (filter (\<lambda>i. i \<noteq> item) cur) item = 0"
      by (simp add: count_list_0_iff)
    moreover have "item \<notin> set cur \<Longrightarrow> count_list (cur @ [item]) item = 1"
      by (simp add: count_list_0_iff)
    ultimately
    show "count_list (checkedOf (findings s') (activeStep s)) item
            = (if item \<in> set (checkedOf (findings s) (activeStep s)) then 0 else 1)"
      using new by (simp add: cur_def)
  qed
qed

text \<open>The second step after two toggles.\<close>

theorem C10_checked_witness:
  "reachable deadlines_then_payment
   \<and> findings deadlines_then_payment 1
       = Some \<lparr> checked = [''Deadlines: Are dates hard or soft?'',
                           ''Payment Amount: Is the math exact?''], notes = [] \<rparr>
   \<and> (1::nat) < length steps
   \<and> distinct [''Deadlines: Are dates hard or soft?'', ''Payment Amount: Is the math exact?'']
   \<and> set [''Deadlines: Are dates hard or soft?'', ''Payment Amount: Is the math exact?'']
       \<subseteq> set (checklist (steps ! 1))"
proof -
  note r = reachable_deadlines_then_payment
  let ?d = "\<lparr> checked = [''Deadlines: Are dates hard or soft?'',
                          ''Payment Amount: Is the math exact?''], notes = [] \<rparr>"
  have f: "findings deadlines_then_payment 1 = Some ?d"
    by (simp add: deadlines_then_payment_def)
  from C10_checked_is_duplicate_free_subset [OF r] f
  have "1 < length steps \<and> distinct (checked ?d)
        \<and> set (checked ?d) \<subseteq> set (checklist (steps ! 1))"
    by blast
  with r f show ?thesis by simp
qed

section \<open>The report\<close>

declare showNat.simps [simp del]

lemma foldl_append_concat: "foldl (\<lambda>report x. report @ f x) acc xs = acc @ concat (map f xs)"
  by (induction xs arbitrary: acc) simp_all

lemma generateReport_blocks:
  "generateReport today name fm =
     reportHeader today name @ concat (map (\<lambda>i. stepBlock i (steps ! i) (fm i)) [0 ..< length steps])"
proof -
  have z: "zip [0 ..< length steps] steps = map (\<lambda>i. (i, steps ! i)) [0 ..< length steps]"
    by (rule nth_equalityI) simp_all
  have "generateReport today name fm =
          foldl (\<lambda>report x. report @ (\<lambda>(index, step). stepBlock index step (fm index)) x)
            (reportHeader today name) (zip [0 ..< length steps] steps)"
    by (simp add: generateReport_def case_prod_unfold)
  also have "\<dots> = reportHeader today name
                 @ concat (map (\<lambda>(index, step). stepBlock index step (fm index))
                            (zip [0 ..< length steps] steps))"
    by (rule foldl_append_concat)
  also have "\<dots> = reportHeader today name
                 @ concat (map (\<lambda>i. stepBlock i (steps ! i) (fm i)) [0 ..< length steps])"
    by (simp add: z o_def)
  finally show ?thesis .
qed

lemma stepBlock_no_issues:
  assumes "\<not> hasIssues stepData"
  shows "stepBlock index step stepData =
           blockHeader index step @ ''Status: No specific issues flagged.\<newline>'' @ separator"
  using assms by (simp add: stepBlock_def)

lemma hasIssues_absent_or_empty:
  assumes "stepData = None \<or> (\<exists>d. stepData = Some d \<and> checked d = [] \<and> trim (notes d) = [])"
  shows "\<not> hasIssues stepData"
  using assms by (auto simp: hasIssues_def)

lemma header_lines:
  "i < 6 \<Longrightarrow>
     \<not> sublist ''Flags Identified:'' (blockHeader i (steps ! i) @ ''Status: No specific issues flagged.\<newline>'' @ separator)
   \<and> \<not> sublist ''Notes:'' (blockHeader i (steps ! i) @ ''Status: No specific issues flagged.\<newline>'' @ separator)"
  by (drule less_6_cases) (elim disjE; hypsubst; code_simp)

lemma blockHeader_first: "blockHeader 0 (steps ! 0) = ''[1] CONTROL CLAUSES\<newline>''"
  by code_simp

lemma blockHeader_second: "blockHeader 1 (steps ! 1) = ''[2] MONEY, OBLIGATIONS & TIMELINES\<newline>''"
  by code_simp

lemma stepBlock_flagged:
  assumes "checked d \<noteq> []"
  shows "stepBlock i step (Some d) =
           blockHeader i step @ ''Flags Identified:\<newline>'' @
           concat (map (\<lambda>item. '' - [x] '' @ item @ ''\<newline>'') (checked d)) @
           (if notes d \<noteq> [] then ''Notes: '' @ notes d @ ''\<newline>'' else []) @
           separator"
proof -
  have "foldl (\<lambda>report item. report @ flagLine item) [] (checked d)
          = concat (map (\<lambda>item. '' - [x] '' @ item @ ''\<newline>'') (checked d))"
    by (simp add: foldl_append_concat flagLine_def)
  with assms show ?thesis
    by (simp add: stepBlock_def hasIssues_def)
qed

text \<open>
  C8: for each of the six steps, when the step's record is absent, or its \<^verbatim>\<open>checked\<close>
  is empty and its notes are empty after trimming, the step's block of the report is
  its header line, the line "Status: No specific issues flagged." and the separator;
  neither "Flags Identified:" nor "Notes:" occurs anywhere in the block.
\<close>

theorem C8_no_issues_block:
  assumes "i < length steps"
    and "fm i = None \<or> (\<exists>d. fm i = Some d \<and> checked d = [] \<and> trim (notes d) = [])"
  shows "stepBlock i (steps ! i) (fm i) =
           ''['' @ showNat (i + 1) @ ''] '' @ toUpperCase (title (steps ! i)) @ ''\<newline>'' @
           ''Status: No specific issues flagged.\<newline>'' @
           ''\<newline>-----------------------------------\<newline>\<newline>''
       \<and> \<not> sublist ''Flags Identified:'' (stepBlock i (steps ! i) (fm i))
       \<and> \<not> sublist ''Notes:'' (stepBlock i (steps ! i) (fm i))"
proof -
  from assms(2) have "\<not> hasIssues (fm i)" by (rule hasIssues_absent_or_empty)
  then have b: "stepBlock i (steps ! i) (fm i) =
      blockHeader i (steps ! i) @ ''Status: No specific issues flagged.\<newline>'' @ separator"
    by (rule stepBlock_no_issues)
  from assms(1) have "i < 6" by (simp add: steps_length)
  note hl = header_lines [OF this]
  show ?thesis
  proof (intro conjI)
    show "stepBlock i (steps ! i) (fm i) =
           ''['' @ showNat (i + 1) @ ''] '' @ toUpperCase (title (steps ! i)) @ ''\<newline>'' @
           ''Status: No specific issues flagged.\<newline>'' @
           ''\<newline>-----------------------------------\<newline>\<newline>''"
      unfolding b blockHeader_def separator_def by (simp only: append_assoc)
    show "\<not> sublist ''Flags Identified:'' (stepBlock i (steps ! i) (fm i))"
      unfolding b using hl by (rule conjunct1)
    show "\<not> sublist ''Notes:'' (stepBlock i (steps ! i) (fm i))"
      unfolding b using hl by (rule conjunct2)
  qed
qed

text \<open>The first step with a single space as notes and nothing checked.\<close>

theorem C8_no_issues_witness:
  "(0::nat) < length steps
   \<and> findings blank_notes 0 = Some \<lparr> checked = [], notes = '' '' \<rparr>
   \<and> trim '' '' = []
   \<and> stepBlock 0 (steps ! 0) (findings blank_notes 0) =
        ''[1] CONTROL CLAUSES\<newline>Status: No specific issues flagged.\<newline>\<newline>-----------------------------------\<newline>\<newline>''"
proof -
  have t: "trim '' '' = []" by (simp add: trim_def isWhiteSpace_def)
  have f: "findings blank_notes 0 = Some \<lparr> checked = [], notes = '' '' \<rparr>"
    by (simp add: blank_notes_def)
  have l: "(0::nat) < length steps" by (simp add: steps_length)
  have c: "findings blank_notes 0 = None
           \<or> (\<exists>d. findings blank_notes 0 = Some d \<and> checked d = [] \<and> trim (notes d) = [])"
    using f t by simp
  have h: "''['' @ showNat (0 + 1) @ ''] '' @ toUpperCase (title (steps ! 0)) @ ''\<newline>''
             = ''[1] CONTROL CLAUSES\<newline>''"
    using blockHeader_first by (simp only: blockHeader_def append_assoc)
  from C8_no_issues_block [of 0 "findings blank_notes"] l c
  have "stepBlock 0 (steps ! 0) (findings blank_notes 0) =
           (''['' @ showNat (0 + 1) @ ''] '' @ toUpperCase (title (steps ! 0)) @ ''\<newline>'') @
           ''Status: No specific issues flagged.\<newline>'' @
           ''\<newline>-----------------------------------\<newline>\<newline>''"
    by (simp only: append_assoc)
  then have "stepBlock 0 (steps ! 0) (findings blank_notes 0) =
        ''[1] CONTROL CLAUSES\<newline>Status: No specific issues flagged.\<newline>\<newline>-----------------------------------\<newline>\<newline>''"
    unfolding h by simp
  with l f t show ?thesis by (intro conjI)
qed

text \<open>
  C1, as the specification states it, fails: on the second step "Deadlines" is the
  fifth item of the checklist and "Payment Amount" the first; after ticking
  "Deadlines" and then "Payment Amount" the report lists "Deadlines" first.
\<close>

theorem C1_counterexample:
  "run [SidebarClick 1, ToggleChecklist ''Deadlines: Are dates hard or soft?'',
        ToggleChecklist ''Payment Amount: Is the math exact?''] initial
     = Some deadlines_then_payment
   \<and> checklist (steps ! 1) ! 0 = ''Payment Amount: Is the math exact?''
   \<and> checklist (steps ! 1) ! 4 = ''Deadlines: Are dates hard or soft?''
   \<and> stepBlock 1 (steps ! 1) (findings deadlines_then_payment 1) =
        ''[2] MONEY, OBLIGATIONS & TIMELINES\<newline>Flags Identified:\<newline> - [x] Deadlines: Are dates hard or soft?\<newline> - [x] Payment Amount: Is the math exact?\<newline>\<newline>-----------------------------------\<newline>\<newline>''"
proof -
  have f: "findings deadlines_then_payment 1
             = Some \<lparr> checked = [''Deadlines: Are dates hard or soft?'',
                                 ''Payment Amount: Is the math exact?''], notes = [] \<rparr>"
    by (simp add: deadlines_then_payment_def)
  have "stepBlock 1 (steps ! 1) (findings deadlines_then_payment 1) =
        ''[2] MONEY, OBLIGATIONS & TIMELINES\<newline>Flags Identified:\<newline> - [x] Deadlines: Are dates hard or soft?\<newline> - [x] Payment Amount: Is the math exact?\<newline>\<newline>-----------------------------------\<newline>\<newline>''"
    unfolding f
    by (simp add: stepBlock_flagged blockHeader_second [unfolded One_nat_def] separator_def)
  moreover have "run [SidebarClick 1, ToggleChecklist ''Deadlines: Are dates hard or soft?'',
        ToggleChecklist ''Payment Amount: Is the math exact?''] initial
     = Some deadlines_then_payment"
    by (simp add: dispatch_def settle_same_step settle_step_changed stepAt_def
          initial_def deadlines_then_payment_def setActiveStep_def toggleChecklist_def
          checkedOf_def notesOf_def timerDepsChanged_def steps_def)
  moreover have "checklist (steps ! 1) ! 0 = ''Payment Amount: Is the math exact?''
     \<and> checklist (steps ! 1) ! 4 = ''Deadlines: Are dates hard or soft?''"
    by (simp add: steps_def)
  ultimately show ?thesis by (intro conjI) simp_all
qed

text \<open>
  C1, amended: for a step with a non-empty \<^verbatim>\<open>checked\<close>, the lines under
  "Flags Identified:" are one \<^verbatim>\<open> - [x] <item>\<close> line per element of \<^verbatim>\<open>checked\<close>, in
  the order in which \<^verbatim>\<open>checked\<close> stores them. That is the order in which the user
  ticked them: ticking an absent item appends it at the end, unticking an item removes
  it and keeps the others in place. The report is its header followed by the blocks of
  the steps in step order.
\<close>

theorem C1_flags_in_stored_order:
  assumes "fm i = Some d" and "checked d \<noteq> []"
  shows "stepBlock i step (fm i) =
           blockHeader i step @ ''Flags Identified:\<newline>'' @
           concat (map (\<lambda>item. '' - [x] '' @ item @ ''\<newline>'') (checked d)) @
           (if notes d \<noteq> [] then ''Notes: '' @ notes d @ ''\<newline>'' else []) @
           separator
       \<and> (\<forall>item. item \<notin> set (checkedOf (findings s) (activeStep s)) \<longrightarrow>
             checkedOf (findings (toggleChecklist item s)) (activeStep s)
               = checkedOf (findings s) (activeStep s) @ [item])
       \<and> (\<forall>item. item \<in> set (checkedOf (findings s) (activeStep s)) \<longrightarrow>
             checkedOf (findings (toggleChecklist item s)) (activeStep s)
               = filter (\<lambda>x. x \<noteq> item) (checkedOf (findings s) (activeStep s)))
       \<and> generateReport today name fm =
           reportHeader today name @
           concat (map (\<lambda>i. stepBlock i (steps ! i) (fm i)) [0 ..< length steps])"
proof (intro conjI)
  show "stepBlock i step (fm i) =
           blockHeader i step @ ''Flags Identified:\<newline>'' @
           concat (map (\<lambda>item. '' - [x] '' @ item @ ''\<newline>'') (checked d)) @
           (if notes d \<noteq> [] then ''Notes: '' @ notes d @ ''\<newline>'' else []) @
           separator"
    unfolding assms(1) using assms(2) by (rule stepBlock_flagged)
  show "\<forall>item. item \<notin> set (checkedOf (findings s) (activeStep s)) \<longrightarrow>
             checkedOf (findings (toggleChecklist item s)) (activeStep s)
               = checkedOf (findings s) (activeStep s) @ [item]"
    by (simp add: toggleChecklist_def Let_def checkedOf_update)
  show "\<forall>item. item \<in> set (checkedOf (findings s) (activeStep s)) \<longrightarrow>
             checkedOf (findings (toggleChecklist item s)) (activeStep s)
               = filter (\<lambda>x. x \<noteq> item) (checkedOf (findings s) (activeStep s))"
    by (simp add: toggleChecklist_def Let_def checkedOf_update)
  show "generateReport today name fm =
           reportHeader today name @
           concat (map (\<lambda>i. stepBlock i (steps ! i) (fm i)) [0 ..< length steps])"
    by (rule generateReport_blocks)
qed

text \<open>The block of the second step after ticking "Deadlines", then "Payment Amount".\<close>

theorem C1_flags_witness:
  "findings deadlines_then_payment 1
     = Some \<lparr> checked = [''Deadlines: Are dates hard or soft?'',
                         ''Payment Amount: Is the math exact?''], notes = [] \<rparr>
   \<and> stepBlock 1 (steps ! 1) (findings deadlines_then_payment 1) =
        blockHeader 1 (steps ! 1) @ ''Flags Identified:\<newline>'' @
        '' - [x] Deadlines: Are dates hard or soft?\<newline>'' @
        '' - [x] Payment Amount: Is the math exact?\<newline>'' @ separator"
proof -
  let ?d = "\<lparr> checked = [''Deadlines: Are dates hard or soft?'',
                          ''Payment Amount: Is the math exact?''], notes = [] \<rparr>"
  have f: "findings deadlines_then_payment 1 = Some ?d"
    by (simp add: deadlines_then_payment_def)
  have c: "checked ?d \<noteq> []" by simp
  from C1_flags_in_stored_order [of "findings deadlines_then_payment" 1 ?d "steps ! 1"] f c
  have "stepBlock 1 (steps ! 1) (findings deadlines_then_payment 1) =
           blockHeader 1 (steps ! 1) @ ''Flags Identified:\<newline>'' @
           concat (map (\<lambda>item. '' - [x] '' @ item @ ''\<newline>'') (checked ?d)) @
           (if notes ?d \<noteq> [] then ''Notes: '' @ notes ?d @ ''\<newline>'' else []) @
           separator"
    by blast
  with f show ?thesis by simp
qed

section \<open>The sidebar indicator\<close>

lemma sidebarHasFindings_iff:
  "sidebarHasFindings fm idx \<longleftrightarrow> checkedOf fm idx \<noteq> [] \<or> notesOf fm idx \<noteq> []"
  by (auto simp: sidebarHasFindings_def checkedOf_def notesOf_def split: option.splits)

text \<open>
  C2 does not hold of the code: after typing a single space into the notes of the
  first step, with nothing checked, the trimmed notes are empty, yet the sidebar shows
  the dot for that step; \<^verbatim>\<open>generateReport\<close>, which trims, finds no issues in the same
  record.
\<close>

theorem C2_sidebar_flags_blank_notes:
  "run [UpdateNotes '' ''] initial = Some blank_notes
   \<and> checkedOf (findings blank_notes) 0 = []
   \<and> trim (notesOf (findings blank_notes) 0) = []
   \<and> sidebarHasFindings (findings blank_notes) 0
   \<and> \<not> hasIssues (findings blank_notes 0)"
  by (simp add: dispatch_def settle_same_step initial_def blank_notes_def updateFinding_def
        checkedOf_def notesOf_def timerDepsChanged_def sidebarHasFindings_def hasIssues_def
        trim_def isWhiteSpace_def)

end
